theory Spec2Isabelle
  imports Main "HOL-Library.Word" "HOL-Library.Log_Nat" "HOL-Library.Stream"
begin

unbundle bit_operations_syntax

section \<open>Python values shared by the modules\<close>

text \<open>
  Every exception the modelled functions can raise is a value of \<open>error\<close>; a function that
  can raise returns \<open>error + 'a\<close> with \<open>Inl\<close> for the exception. \<open>ValueError\<close> carries the
  message of the \<^verbatim>\<open>raise ValueError("...")\<close> statement.
\<close>

datatype error =
    ValueError string
  | ZeroDivisionError
  | RecursionError
  | OverflowError
  | KeyError string
  | TypeError
  | AttributeError
  | StructError
  | InvalidTag
  | BadGzipFile
  | JSONDecodeError
  | UnicodeError
  | DecimalOverflow
  | DecimalDivisionByZero
  | DecimalInvalidOperation

type_synonym byte = "8 word"
type_synonym bytes = "byte list"

text \<open>\<^verbatim>\<open>str(n)\<close> for a Python integer: decimal digits (\<open>str_nat\<close>, for \<open>n \<ge> 0\<close>), a leading minus
  sign for negatives.\<close>

function str_nat :: "int \<Rightarrow> string" where
  "str_nat n = (if n < 10 then [''0123456789'' ! nat n]
                else str_nat (n div 10) @ [''0123456789'' ! nat (n mod 10)])"
  by pat_completeness auto
termination
  by (relation "measure nat") auto

declare str_nat.simps [simp del]

definition str_int :: "int \<Rightarrow> string" where
  "str_int i = (if i < 0 then CHR ''-'' # str_nat (- i) else str_nat i)"

section \<open>constants.py: the spigot generator\<close>

text \<open>
  The generator's local variables \<^verbatim>\<open>q, r, t, k, n, l\<close>. One pass through the body of
  \<^verbatim>\<open>while True\<close> is \<open>spigot_step\<close>: it yields \<open>Some n\<close> in the first branch and nothing in
  the second; \<^verbatim>\<open>//\<close> raises ZeroDivisionError on a zero divisor.
\<close>

record spigot_state =
  sq :: int
  sr :: int
  st :: int
  sk :: int
  sn :: int
  sl :: int

definition spigot_init :: spigot_state where
  "spigot_init = \<lparr>sq = 1, sr = 0, st = 1, sk = 1, sn = 3, sl = 3\<rparr>"

definition py_floordiv :: "int \<Rightarrow> int \<Rightarrow> error + int" where
  "py_floordiv a b = (if b = 0 then Inl ZeroDivisionError else Inr (a div b))"

definition spigot_step :: "spigot_state \<Rightarrow> error + (int option \<times> spigot_state)" where
  "spigot_step s =
     (let q = sq s; r = sr s; t = st s; k = sk s; n = sn s; l = sl s in
      if 4 * q + r - t < n * t then
        (case py_floordiv (10 * (3 * q + r)) t of
           Inl e \<Rightarrow> Inl e
         | Inr d \<Rightarrow> Inr (Some n,
             \<lparr>sq = 10 * q, sr = 10 * (r - n * t), st = t, sk = k, sn = d - 10 * n, sl = l\<rparr>))
      else
        (case py_floordiv (q * (7 * k + 2) + r * l) (t * l) of
           Inl e \<Rightarrow> Inl e
         | Inr d \<Rightarrow> Inr (None,
             \<lparr>sq = q * k, sr = (2 * q + r) * l, st = t * l, sk = k + 1, sn = d, sl = l + 2\<rparr>)))"

text \<open>
  \<^verbatim>\<open>next(g)\<close>: run the loop until the next \<^verbatim>\<open>yield\<close>. The loop has no exit besides the
  yield, so not returning is the value \<open>None\<close>.
\<close>

partial_function (option) spigot_next :: "spigot_state \<Rightarrow> (error + (int \<times> spigot_state)) option" where
  "spigot_next s =
     (case spigot_step s of
        Inl e \<Rightarrow> Some (Inl e)
      | Inr (Some d, s') \<Rightarrow> Some (Inr (d, s'))
      | Inr (None, s') \<Rightarrow> spigot_next s')"

declare spigot_next.simps [code]

text \<open>\<open>spigot_take c s\<close>: \<open>c\<close> successive calls of \<^verbatim>\<open>next(g)\<close>, collecting the digits.\<close>

fun spigot_take :: "nat \<Rightarrow> spigot_state \<Rightarrow> (error + (int list \<times> spigot_state)) option" where
  "spigot_take 0 s = Some (Inr ([], s))"
| "spigot_take (Suc c) s =
     (case spigot_next s of
        None \<Rightarrow> None
      | Some (Inl e) \<Rightarrow> Some (Inl e)
      | Some (Inr (d, s')) \<Rightarrow>
          (case spigot_take c s' of
             None \<Rightarrow> None
           | Some (Inl e) \<Rightarrow> Some (Inl e)
           | Some (Inr (ds, s'')) \<Rightarrow> Some (Inr (d # ds, s''))))"

definition format_spigot_pi :: "int \<Rightarrow> (error + string) option" where
  "format_spigot_pi prefix_digits =
     (if prefix_digits < 1 then Some (Inl (ValueError ''prefix_digits must be >= 1''))
      else case spigot_next spigot_init of
        None \<Rightarrow> None
      | Some (Inl e) \<Rightarrow> Some (Inl e)
      | Some (Inr (first, g)) \<Rightarrow>
          (case spigot_take (nat (prefix_digits - 1)) g of
             None \<Rightarrow> None
           | Some (Inl e) \<Rightarrow> Some (Inl e)
           | Some (Inr (ds, _)) \<Rightarrow> Some (Inr (str_int first @ ''.'' @ concat (map str_int ds)))))"

text \<open>The states the generator passes through, one loop iteration at a time.\<close>

inductive spigot_reach :: "spigot_state \<Rightarrow> bool" where
  reach_init: "spigot_reach spigot_init"
| reach_step: "spigot_reach s \<Longrightarrow> spigot_step s = Inr (d, s') \<Longrightarrow> spigot_reach s'"

section \<open>chudnovsky.py: binary splitting\<close>

definition c_A :: int where "c_A = 13591409"
definition c_B :: int where "c_B = 545140134"
definition c_C :: int where "c_C = 640320"
definition C3_OVER_24 :: int where "C3_OVER_24 = (c_C ^ 3) div 24"

datatype BSTuple = BSTuple (tp: int) (tq: int) (tt: int)

text \<open>
  \<^verbatim>\<open>_bs(a, b)\<close>. When \<^verbatim>\<open>b - a < 1\<close> the Python recursion never reaches its base case and
  stops with RecursionError.
\<close>

function bs :: "int \<Rightarrow> int \<Rightarrow> error + BSTuple" where
  "bs a b =
     (if b - a = 1 then
        (if a = 0 then Inr (BSTuple 1 1 c_A)
         else
           let k = a;
               p = (6 * k - 5) * (2 * k - 1) * (6 * k - 1);
               q = k * k * k * C3_OVER_24;
               t = p * (c_A + c_B * k);
               t = (if k AND 1 \<noteq> 0 then - t else t)
           in Inr (BSTuple p q t))
      else if b - a < 1 then Inl RecursionError
      else
        let m = (a + b) div 2 in
        case bs a m of
          Inl e \<Rightarrow> Inl e
        | Inr left \<Rightarrow>
            (case bs m b of
               Inl e \<Rightarrow> Inl e
             | Inr right \<Rightarrow>
                 Inr (BSTuple (tp left * tp right) (tq left * tq right)
                        (tt left * tq right + tp left * tt right))))"
  by pat_completeness auto
termination
  by (relation "measure (\<lambda>(a, b). nat (b - a))") auto

declare bs.simps [simp del]

definition combine :: "BSTuple \<Rightarrow> BSTuple \<Rightarrow> BSTuple" where
  "combine acc nxt =
     BSTuple (tp acc * tp nxt) (tq acc * tq nxt) (tt acc * tq nxt + tp acc * tt nxt)"

definition bs_range :: "int \<times> int \<Rightarrow> error + BSTuple" where
  "bs_range ab = bs (fst ab) (snd ab)"

text \<open>
  \<^verbatim>\<open>list(ex.map(f, xs))\<close>: the results in the order of \<open>xs\<close>; the first exception, in that
  order, is raised in the caller.
\<close>

fun map_err :: "('a \<Rightarrow> error + 'b) \<Rightarrow> 'a list \<Rightarrow> error + 'b list" where
  "map_err f [] = Inr []"
| "map_err f (x # xs) =
     (case f x of
        Inl e \<Rightarrow> Inl e
      | Inr y \<Rightarrow> (case map_err f xs of Inl e \<Rightarrow> Inl e | Inr ys \<Rightarrow> Inr (y # ys)))"

text \<open>
  The \<^verbatim>\<open>else\<close> branch of \<^verbatim>\<open>chudnovsky_pi_decimal_string\<close>: the bounds, the ranges, the
  chunks and the left-to-right fold. \<^verbatim>\<open>bounds[i + 1]\<close> is always in range there, since
  \<^verbatim>\<open>bounds\<close> has \<^verbatim>\<open>chunk_count + 1\<close> entries.
\<close>

definition chunk_bounds :: "int \<Rightarrow> int \<Rightarrow> int list" where
  "chunk_bounds terms chunk_count =
     [0] @ map (\<lambda>i. (terms * i) div chunk_count) [1..chunk_count]"

definition chunk_ranges :: "int \<Rightarrow> int \<Rightarrow> (int \<times> int) list" where
  "chunk_ranges terms chunk_count =
     (let bounds = chunk_bounds terms chunk_count
      in map (\<lambda>i. (bounds ! nat i, bounds ! nat (i + 1))) [0..chunk_count - 1])"

definition bs_partitioned :: "int \<Rightarrow> int \<Rightarrow> error + BSTuple" where
  "bs_partitioned terms workers =
     (let chunk_count = min workers terms;
          ranges = chunk_ranges terms chunk_count
      in case map_err bs_range ranges of
           Inl e \<Rightarrow> Inl e
         | Inr chunks \<Rightarrow> Inr (foldl combine (BSTuple 1 1 0) chunks))"

text \<open>\<open>leaf k\<close> is the triple of the base case \<^verbatim>\<open>b - a == 1\<close> at \<open>a = k\<close>; \<open>bs_prod a b\<close> is the
  ordered product of the leaves of \<open>[a, b)\<close>.\<close>

definition leaf :: "int \<Rightarrow> BSTuple" where
  "leaf k = (if k = 0 then BSTuple 1 1 c_A
     else let p = (6 * k - 5) * (2 * k - 1) * (6 * k - 1) in
       BSTuple p (k * k * k * C3_OVER_24) (if k AND 1 \<noteq> 0 then - (p * (c_A + c_B * k)) else p * (c_A + c_B * k)))"

definition bs_prod :: "int \<Rightarrow> int \<Rightarrow> BSTuple" where
  "bs_prod a b = foldl combine (BSTuple 1 1 0) (map leaf [a..b - 1])"

subsection \<open>The term count: one double-precision division\<close>

text \<open>
  \<^verbatim>\<open>int(digits_after_point / 14.181647462725477) + 2\<close> converts the integer to a double,
  divides two doubles and truncates. A finite non-negative double is modelled exactly, as a
  pair \<open>(m, e)\<close> standing for \<open>m * 2 ^ e\<close>; every operation rounds the exact rational result to
  53 significant bits, ties to even. \<open>rne_div n d\<close> is \<open>n / d\<close> rounded to the nearest integer,
  ties to even (\<open>d > 0\<close>). \<open>pow2 e\<close> is \<open>2 ^ e\<close> for \<open>e \<ge> 0\<close> and 1 otherwise.
\<close>

definition rne_div :: "int \<Rightarrow> int \<Rightarrow> int" where
  "rne_div n d =
     (let q = n div d; r = n mod d
      in if 2 * r < d \<or> (2 * r = d \<and> even q) then q else q + 1)"

definition pow2 :: "int \<Rightarrow> int" where
  "pow2 e = 2 ^ nat e"

definition round53 :: "int \<Rightarrow> int \<Rightarrow> int \<times> int" where
  "round53 n d =
     (if n = 0 then (0, 0)
      else
        let e0 = bitlen n - bitlen d - 53;
            e = (if d * pow2 e0 * 2 ^ 53 \<le> n * pow2 (- e0) then e0 + 1 else e0)
        in (rne_div (n * pow2 (- e)) (d * pow2 e), e))"

text \<open>\<^verbatim>\<open>float(n)\<close> for \<open>n \<ge> 0\<close>: OverflowError when the rounded value is not a finite double.\<close>

definition float_of_int :: "int \<Rightarrow> error + (int \<times> int)" where
  "float_of_int n =
     (if 2 ^ 1024 - 2 ^ 970 \<le> n then Inl OverflowError else Inr (round53 n 1))"

text \<open>\<open>x / y\<close> for doubles \<open>x \<ge> 0\<close>, \<open>y > 0\<close> whose quotient is zero or in the normal range.\<close>

definition float_truediv :: "int \<times> int \<Rightarrow> int \<times> int \<Rightarrow> int \<times> int" where
  "float_truediv x y =
     round53 (fst x * pow2 (snd x - snd y)) (fst y * pow2 (snd y - snd x))"

text \<open>\<^verbatim>\<open>int(x)\<close> for a double \<open>x \<ge> 0\<close>.\<close>

definition float_trunc :: "int \<times> int \<Rightarrow> int" where
  "float_trunc x = (if 0 \<le> snd x then fst x * 2 ^ nat (snd x) else fst x div 2 ^ nat (- snd x))"

text \<open>The double that the literal \<^verbatim>\<open>14.181647462725477\<close> denotes.\<close>

definition digits_per_term :: "int \<times> int" where
  "digits_per_term = round53 14181647462725477 (10 ^ 15)"

definition term_count :: "int \<Rightarrow> error + int" where
  "term_count digits_after_point =
     (case float_of_int digits_after_point of
        Inl e \<Rightarrow> Inl e
      | Inr x \<Rightarrow> Inr (float_trunc (float_truediv x digits_per_term) + 2))"

subsection \<open>The decimal module\<close>

text \<open>
  A finite \<^verbatim>\<open>Decimal\<close> is a sign, a non-negative integer coefficient and an exponent. The
  operations follow the decimal module's reference implementation (\<^verbatim>\<open>_pydecimal\<close>) under the
  default context apart from \<^verbatim>\<open>prec\<close>: rounding half-even, \<open>Emax = 999999\<close>, \<open>Emin = -999999\<close>,
  no clamping, and the traps Overflow, DivisionByZero and InvalidOperation enabled.
\<close>

record decimal =
  dneg :: bool
  dcoef :: int
  dexp :: int

definition Emax :: int where "Emax = 999999"
definition Emin :: int where "Emin = - 999999"

text \<open>\<^verbatim>\<open>len(self._int)\<close>: the number of digits of the coefficient.\<close>

definition ndigits :: "int \<Rightarrow> int" where
  "ndigits c = int (length (str_nat c))"

definition Decimal :: "int \<Rightarrow> decimal" where
  "Decimal i = \<lparr>dneg = (i < 0), dcoef = \<bar>i\<bar>, dexp = 0\<rparr>"

text \<open>\<^verbatim>\<open>_fix\<close>: round to the context's precision and check the exponent range.\<close>

definition dec_fix :: "int \<Rightarrow> decimal \<Rightarrow> error + decimal" where
  "dec_fix prec d =
     (let Etiny = Emin - prec + 1; Etop = Emax - prec + 1 in
      if dcoef d = 0 then Inr (d\<lparr>dexp := min (max (dexp d) Etiny) Emax\<rparr>)
      else
        let len = ndigits (dcoef d); exp_min0 = len + dexp d - prec in
        if exp_min0 > Etop then Inl DecimalOverflow
        else
          let exp_min = max exp_min0 Etiny in
          if dexp d < exp_min then
            let coeff = rne_div (dcoef d) (10 ^ nat (exp_min - dexp d));
                grown = (ndigits coeff > prec);
                coeff = (if grown then coeff div 10 else coeff);
                exp_min = (if grown then exp_min + 1 else exp_min)
            in if exp_min > Etop then Inl DecimalOverflow
               else Inr \<lparr>dneg = dneg d, dcoef = coeff, dexp = exp_min\<rparr>
          else Inr d)"

definition dec_mul :: "int \<Rightarrow> decimal \<Rightarrow> decimal \<Rightarrow> error + decimal" where
  "dec_mul prec a b =
     dec_fix prec \<lparr>dneg = (dneg a \<noteq> dneg b), dcoef = dcoef a * dcoef b, dexp = dexp a + dexp b\<rparr>"

text \<open>The loop of an exact division: strip trailing zeros up to the ideal exponent.\<close>

function strip_to_ideal :: "int \<Rightarrow> int \<Rightarrow> int \<Rightarrow> int \<times> int" where
  "strip_to_ideal coeff ex ideal_exp =
     (if ex < ideal_exp \<and> coeff mod 10 = 0
      then strip_to_ideal (coeff div 10) (ex + 1) ideal_exp
      else (coeff, ex))"
  by pat_completeness auto
termination
  by (relation "measure (\<lambda>(coeff, ex, ideal_exp). nat (ideal_exp - ex))") auto

declare strip_to_ideal.simps [simp del]

definition dec_div :: "int \<Rightarrow> decimal \<Rightarrow> decimal \<Rightarrow> error + decimal" where
  "dec_div prec a b =
     (if dcoef b = 0 then
        (if dcoef a = 0 then Inl DecimalInvalidOperation else Inl DecimalDivisionByZero)
      else if dcoef a = 0 then
        dec_fix prec \<lparr>dneg = (dneg a \<noteq> dneg b), dcoef = 0, dexp = dexp a - dexp b\<rparr>
      else
        let shift = ndigits (dcoef b) - ndigits (dcoef a) + prec + 1;
            ex = dexp a - dexp b - shift;
            num = (if 0 \<le> shift then dcoef a * 10 ^ nat shift else dcoef a);
            den = (if 0 \<le> shift then dcoef b else dcoef b * 10 ^ nat (- shift));
            coeff = num div den;
            remainder = num mod den;
            ce = (if remainder \<noteq> 0 then ((if coeff mod 5 = 0 then coeff + 1 else coeff), ex)
                  else strip_to_ideal coeff ex (dexp a - dexp b))
        in dec_fix prec \<lparr>dneg = (dneg a \<noteq> dneg b), dcoef = fst ce, dexp = snd ce\<rparr>)"

text \<open>The Newton iteration of \<^verbatim>\<open>Decimal.sqrt\<close>, started at \<open>n = 10 ** prec\<close>.\<close>

function sqrt_newton :: "int \<Rightarrow> int \<Rightarrow> int" where
  "sqrt_newton c n =
     (let q = c div n in if n \<le> q then n else sqrt_newton c ((n + q) div 2))"
  by pat_completeness auto
termination
proof (relation "measure (\<lambda>(c, n). nat (n + \<bar>c\<bar> + 1))")
  show "wf (measure (\<lambda>(c, n). nat (n + \<bar>c\<bar> + 1)))" by simp
next
  fix c n q :: int
  assume q: "q = c div n" and nq: "\<not> n \<le> q"
  have neg: "x \<le> x div m" if "x \<le> 0" "0 < m" for x m :: int
  proof (rule ccontr)
    assume "\<not> x \<le> x div m"
    then have d: "x div m + 1 \<le> x" by simp
    have "x < m * (x div m) + m"
      using mult_div_mod_eq[of m x] pos_mod_bound[of m x] that by linarith
    then have lt: "x < m * (x div m + 1)" by (simp add: algebra_simps)
    have "m * (x div m + 1) \<le> 1 * (x div m + 1)"
      using d that by (intro mult_right_mono_neg) auto
    with lt d show False by simp
  qed
  have pos: "- \<bar>x\<bar> \<le> x div m" if "0 < m" for x m :: int
  proof -
    have "- \<bar>x\<bar> \<le> (- \<bar>x\<bar>) div m" using that by (intro neg) auto
    also have "\<dots> \<le> x div m" using that by (intro zdiv_mono1) auto
    finally show ?thesis .
  qed
  have lb: "- \<bar>c\<bar> \<le> q"
  proof (cases "0 < n")
    case True
    then show ?thesis using pos[of n c] q by simp
  next
    case False
    show ?thesis
    proof (cases "n = 0")
      case True
      then show ?thesis using q by simp
    next
      case False
      with \<open>\<not> 0 < n\<close> have "0 < - n" by simp
      then have "- \<bar>- c\<bar> \<le> (- c) div (- n)" by (rule pos)
      then show ?thesis using q by simp
    qed
  qed
  have "(n + q) div 2 < n" using nq by simp
  moreover have "q \<le> (n + q) div 2" using nq by simp
  ultimately show "((c, (n + q) div 2), (c, n)) \<in> measure (\<lambda>(c, n). nat (n + \<bar>c\<bar> + 1))"
    using lb by simp
qed

declare sqrt_newton.simps [simp del]

text \<open>\<^verbatim>\<open>Decimal.sqrt\<close> of a finite decimal.\<close>

definition dec_sqrt :: "int \<Rightarrow> decimal \<Rightarrow> error + decimal" where
  "dec_sqrt prec a =
     (if dcoef a = 0 then dec_fix prec \<lparr>dneg = dneg a, dcoef = 0, dexp = dexp a div 2\<rparr>
      else if dneg a then Inl DecimalInvalidOperation
      else
        let prec1 = prec + 1;
            e = dexp a div 2;
            len = ndigits (dcoef a);
            c = (if odd (dexp a) then dcoef a * 10 else dcoef a);
            l = (if odd (dexp a) then len div 2 + 1 else (len + 1) div 2);
            shift = prec1 - l;
            exact = (if 0 \<le> shift then True else c mod 100 ^ nat (- shift) = 0);
            c = (if 0 \<le> shift then c * 100 ^ nat shift else c div 100 ^ nat (- shift));
            e = e - shift;
            n = sqrt_newton c (10 ^ nat prec1);
            exact = (exact \<and> n * n = c);
            n' = (if exact then (if 0 \<le> shift then n div 10 ^ nat shift else n * 10 ^ nat (- shift))
                  else if n mod 5 = 0 then n + 1 else n);
            e' = (if exact then e + shift else e)
        in dec_fix prec \<lparr>dneg = False, dcoef = n', dexp = e'\<rparr>)"

text \<open>\<^verbatim>\<open>format(d, "f")\<close> of a finite decimal.\<close>

definition format_f :: "decimal \<Rightarrow> string" where
  "format_f d0 =
     (let d = (if dcoef d0 = 0 \<and> 0 < dexp d0 then d0\<lparr>dexp := 0\<rparr> else d0);
          digits = str_nat (dcoef d);
          dotplace = dexp d + int (length digits);
          intpart =
            (if dotplace < 0 then ''0''
             else if int (length digits) < dotplace
               then digits @ replicate (nat (dotplace - int (length digits))) (CHR ''0'')
             else if take (nat dotplace) digits = [] then ''0''
             else take (nat dotplace) digits);
          fracpart =
            (if dotplace < 0 then replicate (nat (- dotplace)) (CHR ''0'') @ digits
             else if int (length digits) < dotplace then []
             else drop (nat dotplace) digits)
      in (if dneg d then ''-'' else []) @ intpart
         @ (if fracpart \<noteq> [] then ''.'' @ fracpart else []))"

subsection \<open>\<^verbatim>\<open>chudnovsky_pi_decimal_string\<close>\<close>

text \<open>
  The tail of the function, from \<^verbatim>\<open>getcontext().prec = digits_after_point + 20\<close> on: it
  depends on \<^verbatim>\<open>bs\<close> and \<^verbatim>\<open>digits_after_point\<close> only. Setting \<^verbatim>\<open>prec\<close> raises ValueError
  above \<^verbatim>\<open>MAX_PREC\<close> (999999999999999999 on a 64-bit build).
\<close>

definition MAX_PREC :: int where "MAX_PREC = 999999999999999999"

definition pi_string :: "int \<Rightarrow> BSTuple \<Rightarrow> error + string" where
  "pi_string digits_after_point b =
     (let prec = digits_after_point + 20 in
      if prec < 1 \<or> MAX_PREC < prec then Inl (ValueError ''valid range for prec is [1, MAX_PREC]'')
      else
        let q = Decimal (tq b); t = Decimal (tt b) in
        case dec_sqrt prec (Decimal 10005) of
          Inl e \<Rightarrow> Inl e
        | Inr rt \<Rightarrow>
        (case dec_mul prec (Decimal 426880) rt of
          Inl e \<Rightarrow> Inl e
        | Inr x \<Rightarrow>
        (case dec_mul prec x q of
          Inl e \<Rightarrow> Inl e
        | Inr y \<Rightarrow>
        (case dec_div prec y t of
          Inl e \<Rightarrow> Inl e
        | Inr pi_val \<Rightarrow>
            let s = format_f pi_val;
                s = (if CHR ''.'' \<notin> set s then s @ ''.'' else s);
                head = takeWhile (\<lambda>c. c \<noteq> CHR ''.'') s;
                tail = drop 1 (dropWhile (\<lambda>c. c \<noteq> CHR ''.'') s);
                tail = (if int (length tail) < digits_after_point
                        then tail @ replicate (nat (digits_after_point - int (length tail))) (CHR ''0'')
                        else take (nat digits_after_point) tail)
            in Inr (head @ ''.'' @ tail)))))"

definition chudnovsky_pi_decimal_string :: "int \<Rightarrow> int \<Rightarrow> error + string" where
  "chudnovsky_pi_decimal_string digits_after_point workers =
     (if digits_after_point < 0 then Inl (ValueError ''digits_after_point must be >= 0'')
      else if workers < 1 then Inl (ValueError ''workers must be >= 1'')
      else
        case term_count digits_after_point of
          Inl e \<Rightarrow> Inl e
        | Inr terms \<Rightarrow>
            (case (if workers = 1 \<or> terms < 2000 then bs 0 terms
                   else bs_partitioned terms workers) of
               Inl e \<Rightarrow> Inl e
             | Inr b \<Rightarrow> pi_string digits_after_point b))"

text \<open>\<open>digits_fixed k b\<close>: the last \<open>k\<close> decimal digits of \<open>b\<close>, zero-padded; used to read off
  \<open>str_nat\<close> of a long number in blocks.\<close>

fun digits_fixed :: "nat \<Rightarrow> int \<Rightarrow> string" where
  "digits_fixed 0 b = []"
| "digits_fixed (Suc k) b = digits_fixed k (b div 10) @ [''0123456789'' ! nat (b mod 10)]"

section \<open>The spigot generator: first digits and invariant\<close>

lemma mult_ge_one: "(1::int) \<le> a \<Longrightarrow> 1 \<le> b \<Longrightarrow> 1 \<le> a * b"
  using mult_mono[of 1 a 1 b] by simp

lemma spigot_first_51:
  "map_option (map_sum id fst) (spigot_take 51 spigot_init) =
     Some (Inr [3,1,4,1,5,9,2,6,5,3,5,8,9,7,9,3,2,3,8,4,6,2,6,4,3,3,8,3,2,7,9,5,0,2,8,8,4,1,9,7,
                1,6,9,3,9,9,3,7,5,1,0])"
  by code_simp

lemma format_spigot_pi_take:
  assumes "1 \<le> n"
  shows "format_spigot_pi n =
     (case spigot_take (Suc (nat (n - 1))) spigot_init of
        None \<Rightarrow> None
      | Some (Inl e) \<Rightarrow> Some (Inl e)
      | Some (Inr (ds, _)) \<Rightarrow>
          Some (Inr (str_int (hd ds) @ ''.'' @ concat (map str_int (tl ds)))))"
  using assms
  by (auto simp: format_spigot_pi_def split: option.splits sum.splits prod.splits)

lemma str_int_digits:
  "str_int 0 = ''0''" "str_int 1 = ''1''" "str_int 2 = ''2''" "str_int 3 = ''3''"
  "str_int 4 = ''4''" "str_int 5 = ''5''" "str_int 6 = ''6''" "str_int 7 = ''7''"
  "str_int 8 = ''8''" "str_int 9 = ''9''"
  by (simp_all add: str_int_def str_nat.simps)

text \<open>
  C5. The generator started at \<open>(1, 0, 1, 1, 3, 3)\<close> emits 3, 1, 4, 1, 5, 9, ... as its first
  51 digits (so 51 calls of \<^verbatim>\<open>next\<close> all return), and \<^verbatim>\<open>format_spigot_pi(51)\<close> returns
  the string "3.14159265358979323846264338327950288419716939937510".
\<close>

theorem spigot_first_51_digits:
  "map_option (map_sum id fst) (spigot_take 51 spigot_init) =
     Some (Inr [3,1,4,1,5,9,2,6,5,3,5,8,9,7,9,3,2,3,8,4,6,2,6,4,3,3,8,3,2,7,9,5,0,2,8,8,4,1,9,7,
                1,6,9,3,9,9,3,7,5,1,0])
   \<and> format_spigot_pi 51 =
     Some (Inr ''3.14159265358979323846264338327950288419716939937510'')"
proof
  show "map_option (map_sum id fst) (spigot_take 51 spigot_init) =
     Some (Inr [3,1,4,1,5,9,2,6,5,3,5,8,9,7,9,3,2,3,8,4,6,2,6,4,3,3,8,3,2,7,9,5,0,2,8,8,4,1,9,7,
                1,6,9,3,9,9,3,7,5,1,0])"
    by (rule spigot_first_51)
next
  obtain ds s where t: "spigot_take 51 spigot_init = Some (Inr (ds, s))"
    and ds: "ds = [3,1,4,1,5,9,2,6,5,3,5,8,9,7,9,3,2,3,8,4,6,2,6,4,3,3,8,3,2,7,9,5,0,2,8,8,4,1,9,7,
                1,6,9,3,9,9,3,7,5,1,0]"
    using spigot_first_51
    by (cases "spigot_take 51 spigot_init") (auto simp: map_sum_def split: sum.splits)
  have "Suc (nat (51 - 1)) = 51" by simp
  then have "format_spigot_pi 51 =
      Some (Inr (str_int (hd ds) @ ''.'' @ concat (map str_int (tl ds))))"
    using format_spigot_pi_take[of 51] t by simp
  then show "format_spigot_pi 51 =
      Some (Inr ''3.14159265358979323846264338327950288419716939937510'')"
    by (simp add: ds str_int_digits)
qed

text \<open>
  C10, as the code has it. In every state reachable from \<open>(1, 0, 1, 1, 3, 3)\<close> by loop
  iterations, \<open>q \<ge> 1\<close>, \<open>t \<ge> 1\<close>, \<open>k \<ge> 1\<close> and \<open>l \<ge> 3\<close>, so neither divisor (\<open>t\<close>, \<open>t * l\<close>) is
  zero and the next iteration is defined. Nothing is said about the sign of \<open>r\<close>.
\<close>

theorem spigot_invariant:
  "spigot_reach s \<Longrightarrow>
     1 \<le> sq s \<and> 1 \<le> st s \<and> 1 \<le> sk s \<and> 3 \<le> sl s \<and> st s \<noteq> 0 \<and> st s * sl s \<noteq> 0
     \<and> (\<exists>d s'. spigot_step s = Inr (d, s'))"
proof -
  assume r: "spigot_reach s"
  then have inv: "1 \<le> sq s \<and> 1 \<le> st s \<and> 1 \<le> sk s \<and> 3 \<le> sl s"
  proof (induction rule: spigot_reach.induct)
    case reach_init
    show ?case by (simp add: spigot_init_def)
  next
    case (reach_step s d s')
    then show ?case
      by (auto simp: spigot_step_def py_floordiv_def Let_def mult_ge_one split: if_splits)
  qed
  then have nz: "st s \<noteq> 0" "st s * sl s \<noteq> 0" by auto
  then have "\<exists>d s'. spigot_step s = Inr (d, s')"
    by (simp add: spigot_step_def py_floordiv_def Let_def del: mult_eq_0_iff)
  with inv nz show ?thesis by simp
qed

theorem spigot_invariant_witness:
  "spigot_reach spigot_init \<and> 1 \<le> sq spigot_init \<and> 1 \<le> st spigot_init \<and> 1 \<le> sk spigot_init
   \<and> 3 \<le> sl spigot_init \<and> (\<exists>d s'. spigot_step spigot_init = Inr (d, s'))"
  using spigot_invariant[OF reach_init] reach_init by simp

text \<open>
  The state after the first digit is emitted (two iterations) has \<open>r = -30\<close>: \<open>r \<ge> 0\<close> is not an
  invariant.
\<close>

theorem spigot_r_negative_counterexample:
  "spigot_reach \<lparr>sq = 10, sr = - 30, st = 3, sk = 2, sn = 0, sl = 5\<rparr>
   \<and> \<not> 0 \<le> sr \<lparr>sq = 10, sr = - 30, st = 3, sk = 2, sn = 0, sl = 5\<rparr>"
proof -
  have a: "spigot_step spigot_init =
      Inr (None, \<lparr>sq = 1, sr = 6, st = 3, sk = 2, sn = 3, sl = 5\<rparr>)"
    by (simp add: spigot_step_def spigot_init_def py_floordiv_def)
  have b: "spigot_step \<lparr>sq = 1, sr = 6, st = 3, sk = 2, sn = 3, sl = 5\<rparr> =
      Inr (Some 3, \<lparr>sq = 10, sr = - 30, st = 3, sk = 2, sn = 0, sl = 5\<rparr>)"
    by (simp add: spigot_step_def py_floordiv_def)
  have "spigot_reach \<lparr>sq = 10, sr = - 30, st = 3, sk = 2, sn = 0, sl = 5\<rparr>"
    using reach_step[OF reach_step[OF reach_init a] b] .
  then show ?thesis by simp
qed

section \<open>Binary splitting: the partitioned fold equals the single call\<close>

lemma combine_assoc: "combine (combine x y) z = combine x (combine y z)"
  by (simp add: combine_def algebra_simps)

lemma combine_ident_l: "combine (BSTuple 1 1 0) x = x"
  by (cases x) (simp add: combine_def)

lemma combine_ident_r: "combine x (BSTuple 1 1 0) = x"
  by (cases x) (simp add: combine_def)

lemma foldl_combine: "foldl combine x ys = combine x (foldl combine (BSTuple 1 1 0) ys)"
proof (induction ys rule: rev_induct)
  case Nil
  show ?case by (simp add: combine_ident_r)
next
  case (snoc y ys)
  show ?case
    by (simp add: combine_assoc) (metis snoc.IH combine_assoc)
qed

lemma bs_prod_split: "a \<le> m \<Longrightarrow> m \<le> b \<Longrightarrow> combine (bs_prod a m) (bs_prod m b) = bs_prod a b"
proof -
  assume h: "a \<le> m" "m \<le> b"
  show ?thesis
  proof (cases "m = b")
    case True
    then show ?thesis by (simp add: bs_prod_def combine_ident_r)
  next
    case False
    with h have "[a..b - 1] = [a..m - 1] @ [m..b - 1]"
      using upto_split1[of a m "b - 1"] by simp
    then show ?thesis
      unfolding bs_prod_def by (simp add: foldl_combine[symmetric])
  qed
qed

lemma bs_prod_single: "bs_prod a (a + 1) = leaf a"
  by (simp add: bs_prod_def combine_ident_l)

lemma bs_leaf: "bs a (a + 1) = Inr (leaf a)"
  by (subst bs.simps) (simp add: leaf_def Let_def)

lemma bs_eq: "a < b \<Longrightarrow> bs a b = Inr (bs_prod a b)"
proof (induction a b rule: bs.induct)
  case (1 a b)
  show ?case
  proof (cases "b - a = 1")
    case True
    then have "b = a + 1" by simp
    then show ?thesis using bs_leaf bs_prod_single by simp
  next
    case False
    define m where "m = (a + b) div 2"
    from False "1.prems" have am: "a < m" and mb: "m < b" by (auto simp: m_def)
    from False "1.prems" have nb: "\<not> b - a < 1" by simp
    have l: "bs a m = Inr (bs_prod a m)"
      using "1.IH"(1)[OF False nb m_def[symmetric, THEN sym] am] .
    have r: "bs m b = Inr (bs_prod m b)"
      using "1.IH"(2)[OF False nb m_def[symmetric, THEN sym] l mb] .
    have "bs a b = Inr (combine (bs_prod a m) (bs_prod m b))"
      using False nb l r by (subst bs.simps) (simp add: m_def[symmetric] combine_def Let_def)
    then show ?thesis using bs_prod_split[of a m b] am mb by simp
  qed
qed


lemma chain_map: "sorted_wrt (<) (x # xs) \<Longrightarrow>
  map_err bs_range (zip (x # xs) xs) = Inr (map (\<lambda>(a, b). bs_prod a b) (zip (x # xs) xs))"
proof (induction xs arbitrary: x)
  case Nil
  show ?case by simp
next
  case (Cons y ys)
  from Cons.prems have xy: "x < y" and s: "sorted_wrt (<) (y # ys)" by auto
  show ?case using Cons.IH[OF s] bs_eq[OF xy] by (simp add: bs_range_def)
qed

lemma chain_fold: "sorted_wrt (<) (x # xs) \<Longrightarrow>
  foldl combine (BSTuple 1 1 0) (map (\<lambda>(a, b). bs_prod a b) (zip (x # xs) xs)) = bs_prod x (last (x # xs))"
proof (induction xs arbitrary: x)
  case Nil
  show ?case by (simp add: bs_prod_def)
next
  case (Cons y ys)
  from Cons.prems have xy: "x < y" and s: "sorted_wrt (<) (y # ys)" by auto
  from s have yl: "y \<le> last (y # ys)"
    by (cases ys) (auto simp: less_imp_le)
  have "foldl combine (BSTuple 1 1 0) (map (\<lambda>(a, b). bs_prod a b) (zip (x # y # ys) (y # ys)))
        = combine (bs_prod x y) (foldl combine (BSTuple 1 1 0) (map (\<lambda>(a, b). bs_prod a b) (zip (y # ys) ys)))"
    by (simp add: combine_ident_l) (rule foldl_combine)
  also have "\<dots> = combine (bs_prod x y) (bs_prod y (last (y # ys)))"
    using Cons.IH[OF s] by simp
  also have "\<dots> = bs_prod x (last (y # ys))"
    using bs_prod_split[of x y "last (y # ys)"] xy yl by simp
  finally show ?case by simp
qed

lemma bounds_eq: "1 \<le> c \<Longrightarrow> chunk_bounds T c = map (\<lambda>i. (T * i) div c) [0..c]"
  by (simp add: chunk_bounds_def upto_rec1[of 0 c])

lemma bound_mono: assumes "1 \<le> c" "c \<le> T" "0 \<le> x" "x < y"
  shows "(T * x) div c < (T * y) div (c::int)"
proof -
  have "T * x + c \<le> T * y"
  proof -
    have "T * (x + 1) \<le> T * y" using assms by (intro mult_left_mono) auto
    then show ?thesis using assms by (simp add: algebra_simps)
  qed
  then have "(T * x + c) div c \<le> (T * y) div c" using assms by (intro zdiv_mono1) auto
  moreover have "(T * x + c) div c = (T * x) div c + 1" using assms by simp
  ultimately show ?thesis by simp
qed

lemma bounds_sorted: assumes "1 \<le> c" "c \<le> T"
  shows "sorted_wrt (<) (chunk_bounds T c)"
proof -
  have "sorted_wrt (<) [0..c]" by (simp add: strict_sorted_iff)
  then have "sorted_wrt (\<lambda>x y. (T * x) div c < (T * y) div c) [0..c]"
    by (rule sorted_wrt_mono_rel[rotated]) (auto intro: bound_mono[OF assms])
  then show ?thesis using assms by (simp add: bounds_eq sorted_wrt_map)
qed

lemma bounds_last: assumes "1 \<le> c" shows "last (chunk_bounds T c) = T"
proof -
  have "[0..c] = [0..c - 1] @ [c]" using assms upto_rec2[of 0 c] by simp
  then show ?thesis using assms by (simp add: bounds_eq)
qed

lemma bounds_hd: "chunk_bounds T c = 0 # tl (chunk_bounds T c)"
  by (simp add: chunk_bounds_def)

lemma bounds_len: "1 \<le> c \<Longrightarrow> length (chunk_bounds T c) = Suc (nat c)"
  by (simp add: chunk_bounds_def)

lemma ranges_zip: assumes "1 \<le> c"
  shows "chunk_ranges T c = zip (chunk_bounds T c) (tl (chunk_bounds T c))"
proof (rule nth_equalityI)
  show "length (chunk_ranges T c) = length (zip (chunk_bounds T c) (tl (chunk_bounds T c)))"
    using assms by (simp add: chunk_ranges_def Let_def bounds_len)
next
  fix i assume "i < length (chunk_ranges T c)"
  then have i: "i < nat c" using assms by (simp add: chunk_ranges_def Let_def)
  then have "[0..c - 1] ! i = int i" using nth_upto[of 0 i "c - 1"] by simp
  then show "chunk_ranges T c ! i = zip (chunk_bounds T c) (tl (chunk_bounds T c)) ! i"
    using i assms by (simp add: chunk_ranges_def Let_def bounds_len nth_tl nat_add_distrib)
qed

lemma bs_partitioned_eq: assumes "1 \<le> T" "1 \<le> W"
  shows "bs_partitioned T W = bs 0 T"
proof -
  define c where "c = min W T"
  have c: "1 \<le> c" "c \<le> T" using assms by (auto simp: c_def)
  define xs where "xs = tl (chunk_bounds T c)"
  have b: "chunk_bounds T c = 0 # xs" unfolding xs_def by (rule bounds_hd)
  have s: "sorted_wrt (<) (0 # xs)" using bounds_sorted[OF c] b by simp
  have r: "chunk_ranges T c = zip (0 # xs) xs" using ranges_zip[OF c(1), of T] b by simp
  have l: "last (0 # xs) = T" using bounds_last[OF c(1), of T] b by simp
  have "bs_partitioned T W = Inr (bs_prod 0 T)"
    unfolding bs_partitioned_def c_def[symmetric] Let_def r
    using chain_map[OF s] chain_fold[OF s] l by simp
  then show ?thesis using bs_eq[of 0 T] assms by simp
qed

section \<open>Decimal arithmetic: digit counts, square roots and digit strings\<close>

lemma str_nat_small: "n < 10 \<Longrightarrow> str_nat n = [''0123456789'' ! nat n]"
  by (subst str_nat.simps) simp

lemma str_nat_large: "10 \<le> n \<Longrightarrow> str_nat n = str_nat (n div 10) @ [''0123456789'' ! nat (n mod 10)]"
  by (subst str_nat.simps) simp

lemma length_str_nat: "10 ^ k \<le> c \<Longrightarrow> c < 10 ^ Suc k \<Longrightarrow> length (str_nat c) = Suc k"
proof (induction k arbitrary: c)
  case 0
  then show ?case by (simp add: str_nat_small)
next
  case (Suc k)
  from Suc.prems have c10: "10 \<le> c"
    using order_trans[of "10::int" "10 ^ Suc k" c] by simp
  have lo: "10 ^ k \<le> c div 10"
  proof -
    have "(10 * 10 ^ k) div 10 \<le> c div (10::int)"
      using Suc.prems(1) by (intro zdiv_mono1) auto
    then show ?thesis by simp
  qed
  have hi: "c div 10 < 10 ^ Suc k"
    using Suc.prems(2) mult_div_mod_eq[of 10 c] pos_mod_sign[of 10 c] by simp
  show ?case
    using Suc.IH[OF lo hi] by (simp add: str_nat_large[OF c10])
qed

lemma ndigits_eq:
  "0 < k \<Longrightarrow> 10 ^ nat (k - 1) \<le> c \<Longrightarrow> c < 10 ^ nat k \<Longrightarrow> ndigits c = k"
proof -
  assume k: "0 < k" and lo: "10 ^ nat (k - 1) \<le> c" and hi: "c < 10 ^ nat k"
  have "nat k = Suc (nat (k - 1))" using k by simp
  with hi have "c < 10 ^ Suc (nat (k - 1))" by simp
  from length_str_nat[OF lo this] show ?thesis using k by (simp add: ndigits_def)
qed

lemma sqrt_newton_correct:
  "1 \<le> r \<Longrightarrow> r \<le> n \<Longrightarrow> r * r \<le> c \<Longrightarrow> c < (r + 1) * (r + 1) \<Longrightarrow> sqrt_newton c n = r"
proof (induction c n rule: sqrt_newton.induct)
  case (1 c n)
  have n: "0 < n" using "1.prems" by simp
  show ?case
  proof (cases "n \<le> c div n")
    case True
    have "n * n \<le> n * (c div n)" using True n by (intro mult_left_mono) auto
    also have "\<dots> \<le> c" using mult_div_mod_eq[of n c] pos_mod_sign[of n c] n by linarith
    finally have nn: "n * n \<le> c" .
    have "n \<le> r"
    proof (rule ccontr)
      assume "\<not> n \<le> r"
      then have "r + 1 \<le> n" by simp
      then have "(r + 1) * (r + 1) \<le> n * n" using "1.prems"(1) by (intro mult_mono) auto
      with nn "1.prems"(4) show False by simp
    qed
    with "1.prems"(2) have "n = r" by simp
    then show ?thesis using True by (subst sqrt_newton.simps) (simp add: Let_def)
  next
    case False
    have sq: "(2 * r - n) * n = r * r - (r - n) * (r - n)" by (simp add: algebra_simps)
    have "0 \<le> (r - n) * (r - n)" by simp
    with sq "1.prems"(3) have "(2 * r - n) * n \<le> c" by linarith
    then have "((2 * r - n) * n) div n \<le> c div n" using n by (intro zdiv_mono1) auto
    then have "2 * r - n \<le> c div n" using n by simp
    then have rn: "r \<le> (n + c div n) div 2" by simp
    have "sqrt_newton c ((n + c div n) div 2) = r"
      using "1.IH"[OF refl False "1.prems"(1) rn "1.prems"(3) "1.prems"(4)] .
    then show ?thesis using False by (subst sqrt_newton.simps) (simp add: Let_def)
  qed
qed

lemma str_nat_split:
  "0 \<le> b \<Longrightarrow> b < 10 ^ k \<Longrightarrow> 0 < a \<Longrightarrow> str_nat (a * 10 ^ k + b) = str_nat a @ digits_fixed k b"
proof (induction k arbitrary: b)
  case 0
  then have "b = 0" by simp
  then show ?case by simp
next
  case (Suc k)
  have big: "10 \<le> a * 10 ^ Suc k + b"
  proof -
    have "1 * 10 \<le> a * (10::int) ^ Suc k" using Suc.prems(3)
      by (intro mult_mono) (auto simp: self_le_power)
    with Suc.prems(1) show ?thesis by simp
  qed
  have d: "(a * 10 ^ Suc k + b) div 10 = a * 10 ^ k + b div 10"
  proof -
    have "a * 10 ^ Suc k + b = b + (a * 10 ^ k) * 10" by simp
    then show ?thesis by (simp only: div_mult_self1[of 10 b "a * 10 ^ k"])
  qed
  have m: "(a * 10 ^ Suc k + b) mod 10 = b mod 10"
  proof -
    have "a * 10 ^ Suc k + b = b + (a * 10 ^ k) * 10" by simp
    then show ?thesis by (simp only: mod_mult_self1[of b "a * 10 ^ k" 10])
  qed
  have b0: "0 \<le> b div 10" using Suc.prems(1) by simp
  have b1: "b div 10 < 10 ^ k"
    using Suc.prems(2) mult_div_mod_eq[of 10 b] pos_mod_sign[of 10 b] by simp
  have "str_nat (a * 10 ^ Suc k + b)
        = str_nat ((a * 10 ^ Suc k + b) div 10) @ [''0123456789'' ! nat ((a * 10 ^ Suc k + b) mod 10)]"
    by (rule str_nat_large[OF big])
  also have "\<dots> = str_nat (a * 10 ^ k + b div 10) @ [''0123456789'' ! nat (b mod 10)]"
    by (simp only: d m)
  also have "\<dots> = (str_nat a @ digits_fixed k (b div 10)) @ [''0123456789'' ! nat (b mod 10)]"
    by (simp only: Suc.IH[OF b0 b1 Suc.prems(3)])
  finally show ?case by simp
qed

lemma str_nat_blocks:
  "0 < k \<Longrightarrow> 10 ^ k \<le> n \<Longrightarrow> str_nat n = str_nat (n div 10 ^ k) @ digits_fixed k (n mod 10 ^ k)"
proof -
  assume k: "0 < k" and n: "10 ^ k \<le> n"
  have a: "0 < n div 10 ^ k" using n by (simp add: pos_imp_zdiv_pos_iff)
  have "str_nat ((n div 10 ^ k) * 10 ^ k + n mod 10 ^ k)
        = str_nat (n div 10 ^ k) @ digits_fixed k (n mod 10 ^ k)"
    by (rule str_nat_split) (use a in auto)
  then show ?thesis by (simp only: div_mult_mod_eq)
qed

lemma digits_fixed_blocks:
  "0 \<le> n \<Longrightarrow> digits_fixed (j + k) n = digits_fixed j (n div 10 ^ k) @ digits_fixed k (n mod 10 ^ k)"
proof (induction k arbitrary: n)
  case 0
  then show ?case by simp
next
  case (Suc k)
  have n10: "0 \<le> n div 10" using Suc.prems by simp
  have d: "n div 10 div 10 ^ k = n div 10 ^ Suc k"
    by (simp add: zdiv_zmult2_eq)
  have "n mod (10 * 10 ^ k) = 10 * (n div 10 mod 10 ^ k) + n mod 10"
    by (rule zmod_zmult2_eq) simp
  then have m: "n mod (10 * 10 ^ k) div 10 = n div 10 mod 10 ^ k"
    by simp
  have mm: "n mod (10 * 10 ^ k) mod 10 = n mod 10"
    by (simp add: mod_mod_cancel)
  show ?case
    using Suc.IH[OF n10] by (simp add: d m mm)
qed

section \<open>Decimal operations in the normal range\<close>

text \<open>Each lemma states one operation's result from a handful of arithmetic facts about its
  operands, so that a concrete evaluation computes every large product or quotient once.\<close>

lemma rne_div_down: "c = q * d + r \<Longrightarrow> 0 \<le> r \<Longrightarrow> 2 * r < d \<Longrightarrow> rne_div c d = q"
proof -
  assume c: "c = q * d + r" and r: "0 \<le> r" "2 * r < d"
  from r have rd: "r < d" by simp
  have "c div d = q" using c r rd by (simp add: div_pos_pos_trivial)
  moreover have "c mod d = r" using c r rd by (simp add: mod_pos_pos_trivial)
  ultimately show ?thesis using r by (simp add: rne_div_def Let_def)
qed

lemma rne_div_up: "c = q * d + r \<Longrightarrow> r < d \<Longrightarrow> d < 2 * r \<Longrightarrow> rne_div c d = q + 1"
proof -
  assume c: "c = q * d + r" and r: "r < d" "d < 2 * r"
  from r have r0: "0 \<le> r" by simp
  have "c div d = q" using c r r0 by (simp add: div_pos_pos_trivial)
  moreover have "c mod d = r" using c r r0 by (simp add: mod_pos_pos_trivial)
  ultimately show ?thesis using r by (simp add: rne_div_def Let_def)
qed

lemma dec_fix_round:
  assumes "0 < c" and "ndigits c = prec + k" and "0 < k"
    and "rne_div c (10 ^ nat k) = c'" and "ndigits c' = prec"
    and "Emin - prec + 1 \<le> e + k" and "e + k \<le> Emax - prec + 1"
  shows "dec_fix prec \<lparr>dneg = s, dcoef = c, dexp = e\<rparr> = Inr \<lparr>dneg = s, dcoef = c', dexp = e + k\<rparr>"
proof -
  have tiny: "Emin - prec + 1 - e = k" if "k + e \<le> Emin - prec + 1"
    using that assms(6) by simp
  show ?thesis
    using assms by (auto simp: dec_fix_def Let_def max_def tiny)
qed

lemma dec_mul_round:
  assumes "a * b = c" and "0 < c" and "ndigits c = prec + k" and "0 < k"
    and "rne_div c (10 ^ nat k) = c'" and "ndigits c' = prec"
    and "Emin - prec + 1 \<le> ea + eb + k" and "ea + eb + k \<le> Emax - prec + 1"
  shows "dec_mul prec \<lparr>dneg = sa, dcoef = a, dexp = ea\<rparr> \<lparr>dneg = sb, dcoef = b, dexp = eb\<rparr>
         = Inr \<lparr>dneg = (sa \<noteq> sb), dcoef = c', dexp = ea + eb + k\<rparr>"
  unfolding dec_mul_def using dec_fix_round[OF assms(2-8), of "sa \<noteq> sb"] assms(1) by simp

lemma dec_div_round:
  assumes "0 < a" and "0 < b" and "ndigits a = la" and "ndigits b = lb"
    and "sh = lb - la + prec + 1" and "0 \<le> sh"
    and "a * 10 ^ nat sh = q * b + r" and "0 < r" and "r < b"
    and "co = (if q mod 5 = 0 then q + 1 else q)"
    and "0 < co" and "ndigits co = prec + k" and "0 < k"
    and "rne_div co (10 ^ nat k) = c'" and "ndigits c' = prec"
    and "Emin - prec + 1 \<le> ea - eb - sh + k" and "ea - eb - sh + k \<le> Emax - prec + 1"
  shows "dec_div prec \<lparr>dneg = sa, dcoef = a, dexp = ea\<rparr> \<lparr>dneg = sb, dcoef = b, dexp = eb\<rparr>
         = Inr \<lparr>dneg = (sa \<noteq> sb), dcoef = c', dexp = ea - eb - sh + k\<rparr>"
proof -
  have d: "(a * 10 ^ nat sh) div b = q" and m: "(a * 10 ^ nat sh) mod b = r"
    using assms(7-9) by (simp_all add: div_pos_pos_trivial mod_pos_pos_trivial)
  have "dec_div prec \<lparr>dneg = sa, dcoef = a, dexp = ea\<rparr> \<lparr>dneg = sb, dcoef = b, dexp = eb\<rparr>
        = dec_fix prec \<lparr>dneg = (sa \<noteq> sb), dcoef = co, dexp = ea - eb - sh\<rparr>"
    using assms(1-6,8,10) d m by (simp add: dec_div_def Let_def)
  also have "\<dots> = Inr \<lparr>dneg = (sa \<noteq> sb), dcoef = c', dexp = ea - eb - sh + k\<rparr>"
    by (rule dec_fix_round[OF assms(11-17)])
  finally show ?thesis .
qed

lemma dec_sqrt_round:
  assumes "0 < a" and "ndigits a = la" and "sh = prec + 1 - (la + 1) div 2" and "0 \<le> sh"
    and "a * 100 ^ nat sh = c" and "n * n < c" and "c - n * n \<le> 2 * n"
    and "1 \<le> n" and "n \<le> 10 ^ nat (prec + 1)"
    and "co = (if n mod 5 = 0 then n + 1 else n)"
    and "0 < co" and "ndigits co = prec + k" and "0 < k"
    and "rne_div co (10 ^ nat k) = c'" and "ndigits c' = prec"
    and "Emin - prec + 1 \<le> k - sh" and "k - sh \<le> Emax - prec + 1"
  shows "dec_sqrt prec (Decimal a) = Inr \<lparr>dneg = False, dcoef = c', dexp = k - sh\<rparr>"
proof -
  have sn: "sqrt_newton c (10 ^ nat (prec + 1)) = n"
    using assms(6-9) by (intro sqrt_newton_correct) (auto simp: algebra_simps)
  have ne: "n * n \<noteq> c" using assms(6) by simp
  have "dec_sqrt prec (Decimal a) = dec_fix prec \<lparr>dneg = False, dcoef = co, dexp = - sh\<rparr>"
    using assms(1-5,10) sn ne by (simp add: dec_sqrt_def Decimal_def Let_def)
  also have "\<dots> = Inr \<lparr>dneg = False, dcoef = c', dexp = - sh + k\<rparr>"
    by (rule dec_fix_round) (use assms(11-17) in auto)
  finally show ?thesis by simp
qed

section \<open>\<^verbatim>\<open>chudnovsky_pi_decimal_string(80)\<close>, step by step\<close>

lemma term_count_80: "term_count 80 = Inr 7"
  by code_simp

lemma bs_0_7:
  "bs 0 7 = Inr (BSTuple 304037168006446875
     639554036404440688959664187989590610063102707223860112227474057717672124052618084352000000000000000000000
     8692440486373479488193681896420748326258786137318401919696454816713740377067866881064352087819905752581203184375)"
  by code_simp

lemma chud_root:
  "dec_sqrt 100 (Decimal 10005) = Inr \<lparr>dneg = False,
     dcoef = 1000249968757810059447921878763577780015950243686963146571355115696509678538643042923111879484999733,
     dexp = - 97\<rparr>"
proof -
  have p1: "(0::int) < 10005" by simp
  have p2: "ndigits 10005 = 5"
    by (rule ndigits_eq) simp_all
  have p3: "(98::int) = 100 + 1 - (5 + 1) div 2" by simp
  have p4: "(0::int) \<le> 98" by simp
  have p5: "(10005::int) * 100 ^ nat 98 = 100050000000000000000000000000000000000000000000000000000000000000000000000000000000000000000000000000000000000000000000000000000000000000000000000000000000000000000000000000000000000000000000000000000"
    by simp
  have nn: "(10002499687578100594479218787635777800159502436869631465713551156965096785386430429231118794849997329::int) * 10002499687578100594479218787635777800159502436869631465713551156965096785386430429231118794849997329
      = 100049999999999999999999999999999999999999999999999999999999999999999999999999999999999999999999999984485735108894663889674795580488737863592965922309372869771085318094085344321563433885897911307134241"
    by simp
  have p6: "(10002499687578100594479218787635777800159502436869631465713551156965096785386430429231118794849997329::int) * 10002499687578100594479218787635777800159502436869631465713551156965096785386430429231118794849997329
      < 100050000000000000000000000000000000000000000000000000000000000000000000000000000000000000000000000000000000000000000000000000000000000000000000000000000000000000000000000000000000000000000000000000000"
    unfolding nn by simp
  have p7: "(100050000000000000000000000000000000000000000000000000000000000000000000000000000000000000000000000000000000000000000000000000000000000000000000000000000000000000000000000000000000000000000000000000000::int)
      - 10002499687578100594479218787635777800159502436869631465713551156965096785386430429231118794849997329 * 10002499687578100594479218787635777800159502436869631465713551156965096785386430429231118794849997329
      \<le> 2 * 10002499687578100594479218787635777800159502436869631465713551156965096785386430429231118794849997329"
    unfolding nn by simp
  have p8: "(1::int) \<le> 10002499687578100594479218787635777800159502436869631465713551156965096785386430429231118794849997329"
    by simp
  have p9: "(10002499687578100594479218787635777800159502436869631465713551156965096785386430429231118794849997329::int) \<le> 10 ^ nat (100 + 1)"
    by simp
  have p10: "(10002499687578100594479218787635777800159502436869631465713551156965096785386430429231118794849997329::int)
      = (if (10002499687578100594479218787635777800159502436869631465713551156965096785386430429231118794849997329::int) mod 5 = 0
         then 10002499687578100594479218787635777800159502436869631465713551156965096785386430429231118794849997329 + 1
         else 10002499687578100594479218787635777800159502436869631465713551156965096785386430429231118794849997329)"
    by simp
  have p11: "(0::int) < 10002499687578100594479218787635777800159502436869631465713551156965096785386430429231118794849997329"
    by simp
  have p12: "ndigits 10002499687578100594479218787635777800159502436869631465713551156965096785386430429231118794849997329 = 100 + 1"
  proof -
    have "ndigits 10002499687578100594479218787635777800159502436869631465713551156965096785386430429231118794849997329 = 101"
      by (rule ndigits_eq) simp_all
    then show ?thesis by simp
  qed
  have p13: "(0::int) < 1" by simp
  have p14: "rne_div 10002499687578100594479218787635777800159502436869631465713551156965096785386430429231118794849997329 (10 ^ nat 1) = 1000249968757810059447921878763577780015950243686963146571355115696509678538643042923111879484999733"
  proof -
    have "rne_div 10002499687578100594479218787635777800159502436869631465713551156965096785386430429231118794849997329 (10 ^ nat 1) = 1000249968757810059447921878763577780015950243686963146571355115696509678538643042923111879484999732 + 1"
      by (rule rne_div_up[where r = 9]) simp_all
    then show ?thesis by simp
  qed
  have p15: "ndigits 1000249968757810059447921878763577780015950243686963146571355115696509678538643042923111879484999733 = 100"
    by (rule ndigits_eq) simp_all
  have p16: "Emin - 100 + 1 \<le> 1 - 98"
    by (simp add: Emin_def)
  have p17: "1 - 98 \<le> Emax - 100 + 1"
    by (simp add: Emax_def)
  have "dec_sqrt 100 (Decimal 10005) = Inr \<lparr>dneg = False,
     dcoef = 1000249968757810059447921878763577780015950243686963146571355115696509678538643042923111879484999733,
     dexp = 1 - 98\<rparr>"
    by (rule dec_sqrt_round[OF p1 p2 p3 p4 p5 p6 p7 p8 p9 p10 p11 p12 p13 p14 p15 p16 p17])
  then show ?thesis by simp
qed

lemma chud_times_426880:
  "dec_mul 100 (Decimal 426880)
     \<lparr>dneg = False, dcoef = 1000249968757810059447921878763577780015950243686963146571355115696509678538643042923111879484999733, dexp = - 97\<rparr>
   = Inr \<lparr>dneg = False,
       dcoef = 4269867066633339581771288916065960827332088400250908280083800717885260515745759421630179991145566860,
       dexp = - 92\<rparr>"
proof -
  have q1: "(426880::int) * 1000249968757810059447921878763577780015950243686963146571355115696509678538643042923111879484999733
      = 426986706663333958177128891606596082733208840025090828008380071788526051574575942163017999114556686023040"
    by simp
  have q2: "(0::int) < 426986706663333958177128891606596082733208840025090828008380071788526051574575942163017999114556686023040"
    by simp
  have q3: "ndigits 426986706663333958177128891606596082733208840025090828008380071788526051574575942163017999114556686023040 = 100 + 5"
  proof -
    have "ndigits 426986706663333958177128891606596082733208840025090828008380071788526051574575942163017999114556686023040 = 105"
      by (rule ndigits_eq) simp_all
    then show ?thesis by simp
  qed
  have q4: "(0::int) < 5" by simp
  have q5: "rne_div 426986706663333958177128891606596082733208840025090828008380071788526051574575942163017999114556686023040 (10 ^ nat 5) = 4269867066633339581771288916065960827332088400250908280083800717885260515745759421630179991145566860"
    by (rule rne_div_down[where r = 23040]) simp_all
  have q6: "ndigits 4269867066633339581771288916065960827332088400250908280083800717885260515745759421630179991145566860 = 100"
    by (rule ndigits_eq) simp_all
  have q7: "Emin - 100 + 1 \<le> 0 + - 97 + 5"
    by (simp add: Emin_def)
  have q8: "0 + - 97 + 5 \<le> Emax - 100 + 1"
    by (simp add: Emax_def)
  have "dec_mul 100 \<lparr>dneg = False, dcoef = 426880, dexp = 0\<rparr>
     \<lparr>dneg = False, dcoef = 1000249968757810059447921878763577780015950243686963146571355115696509678538643042923111879484999733, dexp = - 97\<rparr>
   = Inr \<lparr>dneg = (False \<noteq> False),
       dcoef = 4269867066633339581771288916065960827332088400250908280083800717885260515745759421630179991145566860,
       dexp = 0 + - 97 + 5\<rparr>"
    by (rule dec_mul_round[OF q1 q2 q3 q4 q5 q6 q7 q8])
  then show ?thesis by (simp add: Decimal_def)
qed

lemma chud_times_q:
  "dec_mul 100
     \<lparr>dneg = False, dcoef = 4269867066633339581771288916065960827332088400250908280083800717885260515745759421630179991145566860, dexp = - 92\<rparr>
     (Decimal 639554036404440688959664187989590610063102707223860112227474057717672124052618084352000000000000000000000)
   = Inr \<lparr>dneg = False,
       dcoef = 2730810717375741239875748070705441849392129031107803079732109888514140798102227906194585998499247119,
       dexp = 13\<rparr>"
proof -
  have q1: "(4269867066633339581771288916065960827332088400250908280083800717885260515745759421630179991145566860::int)
      * 639554036404440688959664187989590610063102707223860112227474057717672124052618084352000000000000000000000
      = 2730810717375741239875748070705441849392129031107803079732109888514140798102227906194585998499247119171314182652156138817744964834997861928725622798542701390326725723250690150335774720000000000000000000000"
    by simp
  have q2: "(0::int) < 2730810717375741239875748070705441849392129031107803079732109888514140798102227906194585998499247119171314182652156138817744964834997861928725622798542701390326725723250690150335774720000000000000000000000"
    by simp
  have q3: "ndigits 2730810717375741239875748070705441849392129031107803079732109888514140798102227906194585998499247119171314182652156138817744964834997861928725622798542701390326725723250690150335774720000000000000000000000 = 100 + 105"
  proof -
    have "ndigits 2730810717375741239875748070705441849392129031107803079732109888514140798102227906194585998499247119171314182652156138817744964834997861928725622798542701390326725723250690150335774720000000000000000000000 = 205"
      by (rule ndigits_eq) simp_all
    then show ?thesis by simp
  qed
  have q4: "(0::int) < 105" by simp
  have q5: "rne_div 2730810717375741239875748070705441849392129031107803079732109888514140798102227906194585998499247119171314182652156138817744964834997861928725622798542701390326725723250690150335774720000000000000000000000 (10 ^ nat 105) = 2730810717375741239875748070705441849392129031107803079732109888514140798102227906194585998499247119"
    by (rule rne_div_down[where r = 171314182652156138817744964834997861928725622798542701390326725723250690150335774720000000000000000000000]) simp_all
  have q6: "ndigits 2730810717375741239875748070705441849392129031107803079732109888514140798102227906194585998499247119 = 100"
    by (rule ndigits_eq) simp_all
  have q7: "Emin - 100 + 1 \<le> - 92 + 0 + 105"
    by (simp add: Emin_def)
  have q8: "- 92 + 0 + 105 \<le> Emax - 100 + 1"
    by (simp add: Emax_def)
  have "dec_mul 100
     \<lparr>dneg = False, dcoef = 4269867066633339581771288916065960827332088400250908280083800717885260515745759421630179991145566860, dexp = - 92\<rparr>
     \<lparr>dneg = False, dcoef = 639554036404440688959664187989590610063102707223860112227474057717672124052618084352000000000000000000000, dexp = 0\<rparr>
   = Inr \<lparr>dneg = (False \<noteq> False),
       dcoef = 2730810717375741239875748070705441849392129031107803079732109888514140798102227906194585998499247119,
       dexp = - 92 + 0 + 105\<rparr>"
    by (rule dec_mul_round[OF q1 q2 q3 q4 q5 q6 q7 q8])
  then show ?thesis by (simp add: Decimal_def)
qed

lemma chud_div_t:
  "dec_div 100
     \<lparr>dneg = False, dcoef = 2730810717375741239875748070705441849392129031107803079732109888514140798102227906194585998499247119, dexp = 13\<rparr>
     (Decimal 8692440486373479488193681896420748326258786137318401919696454816713740377067866881064352087819905752581203184375)
   = Inr \<lparr>dneg = False,
       dcoef = 3141592653589793238462643383279502884197169399375105820974944592307816406286208998628034825342117065,
       dexp = - 99\<rparr>"
proof -
  have d1: "(0::int) < 2730810717375741239875748070705441849392129031107803079732109888514140798102227906194585998499247119"
    by simp
  have d2: "(0::int) < 8692440486373479488193681896420748326258786137318401919696454816713740377067866881064352087819905752581203184375"
    by simp
  have d3: "ndigits 2730810717375741239875748070705441849392129031107803079732109888514140798102227906194585998499247119 = 100"
    by (rule ndigits_eq) simp_all
  have d4: "ndigits 8692440486373479488193681896420748326258786137318401919696454816713740377067866881064352087819905752581203184375 = 112"
    by (rule ndigits_eq) simp_all
  have d5: "(113::int) = 112 - 100 + 100 + 1" by simp
  have d6: "(0::int) \<le> 113" by simp
  have d7: "(2730810717375741239875748070705441849392129031107803079732109888514140798102227906194585998499247119::int) * 10 ^ nat 113
      = 31415926535897932384626433832795028841971693993751058209749445923078164062862089986280348253421170654
        * 8692440486373479488193681896420748326258786137318401919696454816713740377067866881064352087819905752581203184375
        + 6456762474117099148199110230644333082273011686033862729814856840155061815292839610394835137839444319854898668750"
    by simp
  have d8: "(0::int) < 6456762474117099148199110230644333082273011686033862729814856840155061815292839610394835137839444319854898668750"
    by simp
  have d9: "(6456762474117099148199110230644333082273011686033862729814856840155061815292839610394835137839444319854898668750::int)
      < 8692440486373479488193681896420748326258786137318401919696454816713740377067866881064352087819905752581203184375"
    by simp
  have d10: "(31415926535897932384626433832795028841971693993751058209749445923078164062862089986280348253421170654::int)
      = (if (31415926535897932384626433832795028841971693993751058209749445923078164062862089986280348253421170654::int) mod 5 = 0
         then 31415926535897932384626433832795028841971693993751058209749445923078164062862089986280348253421170654 + 1
         else 31415926535897932384626433832795028841971693993751058209749445923078164062862089986280348253421170654)"
    by simp
  have d11: "(0::int) < 31415926535897932384626433832795028841971693993751058209749445923078164062862089986280348253421170654"
    by simp
  have d12: "ndigits 31415926535897932384626433832795028841971693993751058209749445923078164062862089986280348253421170654 = 100 + 1"
  proof -
    have "ndigits 31415926535897932384626433832795028841971693993751058209749445923078164062862089986280348253421170654 = 101"
      by (rule ndigits_eq) simp_all
    then show ?thesis by simp
  qed
  have d13: "(0::int) < 1" by simp
  have d14: "rne_div 31415926535897932384626433832795028841971693993751058209749445923078164062862089986280348253421170654 (10 ^ nat 1) = 3141592653589793238462643383279502884197169399375105820974944592307816406286208998628034825342117065"
    by (rule rne_div_down[where r = 4]) simp_all
  have d15: "ndigits 3141592653589793238462643383279502884197169399375105820974944592307816406286208998628034825342117065 = 100"
    by (rule ndigits_eq) simp_all
  have d16: "Emin - 100 + 1 \<le> 13 - 0 - 113 + 1"
    by (simp add: Emin_def)
  have d17: "13 - 0 - 113 + 1 \<le> Emax - 100 + 1"
    by (simp add: Emax_def)
  have "dec_div 100
     \<lparr>dneg = False, dcoef = 2730810717375741239875748070705441849392129031107803079732109888514140798102227906194585998499247119, dexp = 13\<rparr>
     \<lparr>dneg = False, dcoef = 8692440486373479488193681896420748326258786137318401919696454816713740377067866881064352087819905752581203184375, dexp = 0\<rparr>
   = Inr \<lparr>dneg = (False \<noteq> False),
       dcoef = 3141592653589793238462643383279502884197169399375105820974944592307816406286208998628034825342117065,
       dexp = 13 - 0 - 113 + 1\<rparr>"
    by (rule dec_div_round[OF d1 d2 d3 d4 d5 d6 d7 d8 d9 d10 d11 d12 d13 d14 d15 d16 d17])
  then show ?thesis by (simp add: Decimal_def)
qed

lemma chud_digits:
  "str_nat 3141592653589793238462643383279502884197169399375105820974944592307816406286208998628034825342117065
   = ''3141592653589793238462643383279502884197169399375105820974944592307816406286208998628034825342117065''"
proof -
  have s0: "str_nat 3141592653589793238462643383279502884197169399375105820974944592307816406286208998628034825342117065
      = str_nat 31415926535897932384 @ digits_fixed 80 62643383279502884197169399375105820974944592307816406286208998628034825342117065"
    using str_nat_blocks[of 80 3141592653589793238462643383279502884197169399375105820974944592307816406286208998628034825342117065]
    by simp
  have s1: "digits_fixed 80 62643383279502884197169399375105820974944592307816406286208998628034825342117065
      = digits_fixed 60 626433832795028841971693993751058209749445923078164062862089 @ digits_fixed 20 98628034825342117065"
    using digits_fixed_blocks[of 62643383279502884197169399375105820974944592307816406286208998628034825342117065 60 20]
    by simp
  have l1: "digits_fixed 20 98628034825342117065 = ''98628034825342117065''"
    by code_simp
  have s2: "digits_fixed 60 626433832795028841971693993751058209749445923078164062862089
      = digits_fixed 40 6264338327950288419716939937510582097494 @ digits_fixed 20 45923078164062862089"
    using digits_fixed_blocks[of 626433832795028841971693993751058209749445923078164062862089 40 20]
    by simp
  have l2: "digits_fixed 20 45923078164062862089 = ''45923078164062862089''"
    by code_simp
  have s3: "digits_fixed 40 6264338327950288419716939937510582097494
      = digits_fixed 20 62643383279502884197 @ digits_fixed 20 16939937510582097494"
    using digits_fixed_blocks[of 6264338327950288419716939937510582097494 20 20]
    by simp
  have l3: "digits_fixed 20 16939937510582097494 = ''16939937510582097494''"
    by code_simp
  have l4: "digits_fixed 20 62643383279502884197 = ''62643383279502884197''"
    by code_simp
  have l0: "str_nat 31415926535897932384 = ''31415926535897932384''"
    by code_simp
  show ?thesis
    by (simp only: s0 s1 l1 s2 l2 s3 l3 l4 l0 append.simps append_assoc)
qed

lemma pi_string_80:
  "pi_string 80 (BSTuple 304037168006446875
     639554036404440688959664187989590610063102707223860112227474057717672124052618084352000000000000000000000
     8692440486373479488193681896420748326258786137318401919696454816713740377067866881064352087819905752581203184375)
   = Inr ''3.14159265358979323846264338327950288419716939937510582097494459230781640628620899''"
  by (simp add: pi_string_def MAX_PREC_def Let_def chud_root chud_times_426880 chud_times_q
      chud_div_t format_f_def chud_digits)

section \<open>C1: the number of workers does not change the result\<close>

lemma chudnovsky_workers:
  assumes "1 \<le> workers"
  shows "chudnovsky_pi_decimal_string D workers = chudnovsky_pi_decimal_string D 1"
proof (cases "term_count D")
  case (Inl e)
  then show ?thesis using assms by (simp add: chudnovsky_pi_decimal_string_def)
next
  case (Inr terms)
  show ?thesis
  proof (cases "workers = 1 \<or> terms < 2000")
    case True
    then show ?thesis using assms Inr by (auto simp: chudnovsky_pi_decimal_string_def)
  next
    case False
    then have "1 \<le> terms" by simp
    then have "bs_partitioned terms workers = bs 0 terms"
      using assms by (rule bs_partitioned_eq)
    then show ?thesis using assms Inr False by (simp add: chudnovsky_pi_decimal_string_def)
  qed
qed

lemma chudnovsky_80_single:
  "chudnovsky_pi_decimal_string 80 1 =
     Inr ''3.14159265358979323846264338327950288419716939937510582097494459230781640628620899''"
  by (simp add: chudnovsky_pi_decimal_string_def term_count_80 bs_0_7 pi_string_80)

text \<open>
  C1. For every number of digits \<open>D\<close> and every \<open>workers \<ge> 1\<close>,
  \<^verbatim>\<open>chudnovsky_pi_decimal_string(D, workers)\<close> equals \<^verbatim>\<open>chudnovsky_pi_decimal_string(D, 1)\<close>;
  partitioning \<open>[0, T)\<close> into \<open>min(workers, T)\<close> contiguous ranges, computing each with
  \<^verbatim>\<open>_bs\<close> and folding the results left to right with \<^verbatim>\<open>_combine\<close> from \<open>(1, 1, 0)\<close> gives the
  triple of the single call \<^verbatim>\<open>_bs(0, T)\<close>, for every \<open>T \<ge> 1\<close>; and
  \<^verbatim>\<open>chudnovsky_pi_decimal_string(80, workers)\<close> is the string
  3.14159265358979323846264338327950288419716939937510582097494459230781640628620899.
\<close>

theorem chudnovsky_parallel_equals_single:
  assumes "1 \<le> workers"
  shows "chudnovsky_pi_decimal_string D workers = chudnovsky_pi_decimal_string D 1
    \<and> (1 \<le> T \<longrightarrow> bs_partitioned T workers = bs 0 T)
    \<and> chudnovsky_pi_decimal_string 80 workers =
        Inr ''3.14159265358979323846264338327950288419716939937510582097494459230781640628620899''"
  using chudnovsky_workers[OF assms, of D] chudnovsky_workers[OF assms, of 80]
    bs_partitioned_eq[OF _ assms, of T] chudnovsky_80_single
  by simp

theorem chudnovsky_parallel_equals_single_witness:
  "(1::int) \<le> 4
    \<and> chudnovsky_pi_decimal_string 1000 4 = chudnovsky_pi_decimal_string 1000 1
    \<and> ((1::int) \<le> 7 \<and> bs_partitioned 7 4 = bs 0 7)
    \<and> chudnovsky_pi_decimal_string 80 4 =
        Inr ''3.14159265358979323846264338327950288419716939937510582097494459230781640628620899''"
proof -
  have h: "(1::int) \<le> 4" by simp
  show ?thesis
    using chudnovsky_parallel_equals_single[OF h, of 1000 7] by simp
qed

end
